theory Spec2Isabelle
  imports Complex_Main
begin

section \<open>Grid Coder (dark-maze): data model\<close>

text \<open>
  The development follows the path-first version of \<^verbatim>\<open>main.js\<close> (the second program
  text of the file, with the commands \<^verbatim>\<open>IFBLUE_R\<close> and \<^verbatim>\<open>IFBLUE_L\<close>).

  A cell of the grid is one of the four strings \<^verbatim>\<open>'empty' | 'wall' | 'blue' | 'goal'\<close>.
  A JavaScript array is an object whose integer keys may or may not be present: a row is
  a partial map from the column to the cell, and the grid a partial map from the line
  to the row. A missing key reads as \<^verbatim>\<open>undefined\<close> (\<open>None\<close>); reading a column
  of a missing row throws a \<^verbatim>\<open>TypeError\<close>.
\<close>

datatype cell = Empty | Wall | Blue | Goal

type_synonym row = "int \<Rightarrow> cell option"

type_synonym grid = "int \<Rightarrow> row option"

datatype js_error = TypeError

definition GRID_SIZE :: int where
  "GRID_SIZE = 5"

definition STEP_DELAY :: int where
  "STEP_DELAY = 600"

text \<open>The direction table: \<open>(dx, dy, rotation)\<close> for 0 = up, 1 = right, 2 = down, 3 = left.\<close>

definition DIRS :: "(int \<times> int \<times> int) list" where
  "DIRS = [(0, -1, 0), (1, 0, 90), (0, 1, 180), (-1, 0, 270)]"

text \<open>The keys of \<^verbatim>\<open>COMMAND_LABELS\<close>: the tokens a command button can append.\<close>

definition COMMAND_LABELS :: "string list" where
  "COMMAND_LABELS = [''F'', ''L'', ''R'', ''LOOP2'', ''IFBLUE_R'', ''IFBLUE_L'']"

text \<open>
  \<^verbatim>\<open>agentState = { x, y, dir }\<close>. The coordinates are integers (a candidate position
  may be \<open>-1\<close>); the heading is an index into \<open>DIRS\<close>, only ever assigned \<open>1\<close> or a
  remainder modulo 4 of a sum of non-negative numbers.
\<close>

record agent =
  agent_x :: int
  agent_y :: int
  agent_dir :: nat

text \<open>One expanded step: \<^verbatim>\<open>{ fromIndex, action }\<close>.\<close>

record step =
  fromIndex :: nat
  action :: string

text \<open>
  The texts written by \<^verbatim>\<open>updateStatus\<close> during a run, by meaning:
  the run starts; no executable step; left the grid; hit a wall; goal reached;
  commands finished away from the goal. \<open>StatusReady\<close> is the text set by \<^verbatim>\<open>init\<close>.
\<close>

datatype status =
    StatusReady
  | StatusStart
  | StatusNoSteps
  | StatusOutOfBounds
  | StatusHitWall
  | StatusGoalReached
  | StatusNotAtGoal

text \<open>
  The global variables of the program, and of the page the two overlays (hidden or
  shown) and the status text. Positions are pairs \<open>(x, y)\<close>.
\<close>

record world =
  grid :: grid
  startPos :: "int \<times> int"
  goalPos :: "int \<times> int"
  agentState :: agent
  commandQueue :: "string list"
  isRunning :: bool
  currentHighlightIndex :: "nat option"
  overlaySuccessHidden :: bool
  overlayFailHidden :: bool
  statusText :: status

text \<open>\<^verbatim>\<open>grid[y][x]\<close> as an expression: throws when the row is missing.\<close>

definition cellAt :: "grid \<Rightarrow> int \<Rightarrow> int \<Rightarrow> js_error + cell option" where
  "cellAt g y x = (case g y of None \<Rightarrow> Inl TypeError | Some r \<Rightarrow> Inr (r x))"

text \<open>\<^verbatim>\<open>grid[y][x] = c\<close> as a statement: throws when the row is missing.\<close>

definition setCell :: "grid \<Rightarrow> int \<Rightarrow> int \<Rightarrow> cell \<Rightarrow> js_error + grid" where
  "setCell g y x c = (case g y of None \<Rightarrow> Inl TypeError | Some r \<Rightarrow> Inr (g(y \<mapsto> r(x \<mapsto> c))))"

definition updateStatus :: "status \<Rightarrow> world \<Rightarrow> world" where
  "updateStatus text w = w\<lparr>statusText := text\<rparr>"

definition showSuccessOverlay :: "world \<Rightarrow> world" where
  "showSuccessOverlay w = w\<lparr>overlayFailHidden := True, overlaySuccessHidden := False\<rparr>"

definition showFailOverlay :: "world \<Rightarrow> world" where
  "showFailOverlay w = w\<lparr>overlaySuccessHidden := True, overlayFailHidden := False\<rparr>"

definition setQueueHighlight :: "nat option \<Rightarrow> world \<Rightarrow> world" where
  "setQueueHighlight idx w = w\<lparr>currentHighlightIndex := idx\<rparr>"

definition resetAgentToStart :: "world \<Rightarrow> world" where
  "resetAgentToStart w =
     w\<lparr>agentState := \<lparr>agent_x = fst (startPos w), agent_y = snd (startPos w), agent_dir = 1\<rparr>\<rparr>"

section \<open>Execution of one step\<close>

text \<open>
  \<^verbatim>\<open>performStep(step)\<close> returns whether the run continues and mutates the agent, the
  overlays and the status text. The animation calls (\<^verbatim>\<open>updateAgentVisual\<close>,
  \<^verbatim>\<open>triggerFailAnimation\<close>, \<^verbatim>\<open>triggerGoalEffect\<close>) only style the page and are left
  out. \<^verbatim>\<open>DIRS[dir]\<close> outside the table is \<^verbatim>\<open>undefined\<close>, whose \<^verbatim>\<open>dx\<close> throws.
\<close>

definition performStep :: "step \<Rightarrow> world \<Rightarrow> js_error + (bool \<times> world)" where
  "performStep stp w =
    (let type = action stp; a = agentState w in
     if type = ''NOOP'' \<or> type = ''NOOP_COND'' then Inr (True, w)
     else if type = ''IFBLUE_R'' then
       (case cellAt (grid w) (agent_y a) (agent_x a) of
          Inl e \<Rightarrow> Inl e
        | Inr currentCellType \<Rightarrow>
            if currentCellType = Some Blue
            then Inr (True, w\<lparr>agentState := a\<lparr>agent_dir := (agent_dir a + 1) mod 4\<rparr>\<rparr>)
            else Inr (True, w))
     else if type = ''IFBLUE_L'' then
       (case cellAt (grid w) (agent_y a) (agent_x a) of
          Inl e \<Rightarrow> Inl e
        | Inr currentCellType \<Rightarrow>
            if currentCellType = Some Blue
            then Inr (True, w\<lparr>agentState := a\<lparr>agent_dir := (agent_dir a + 3) mod 4\<rparr>\<rparr>)
            else Inr (True, w))
     else if type = ''L'' then
       Inr (True, w\<lparr>agentState := a\<lparr>agent_dir := (agent_dir a + 3) mod 4\<rparr>\<rparr>)
     else if type = ''R'' then
       Inr (True, w\<lparr>agentState := a\<lparr>agent_dir := (agent_dir a + 1) mod 4\<rparr>\<rparr>)
     else if type = ''F'' then
       (if agent_dir a < length DIRS then
          (let dirInfo = DIRS ! agent_dir a;
               nextX = agent_x a + fst dirInfo;
               nextY = agent_y a + fst (snd dirInfo) in
           if nextX < 0 \<or> nextX \<ge> GRID_SIZE \<or> nextY < 0 \<or> nextY \<ge> GRID_SIZE
           then Inr (False, showFailOverlay (updateStatus StatusOutOfBounds w))
           else
             (case cellAt (grid w) nextY nextX of
                Inl e \<Rightarrow> Inl e
              | Inr cellType \<Rightarrow>
                  if cellType = Some Wall
                  then Inr (False, showFailOverlay (updateStatus StatusHitWall w))
                  else
                    (let w1 = w\<lparr>agentState := a\<lparr>agent_x := nextX, agent_y := nextY\<rparr>\<rparr> in
                     if cellType = Some Goal
                     then Inr (False, showSuccessOverlay (updateStatus StatusGoalReached w1))
                     else Inr (True, w1))))
        else Inl TypeError)
     else Inr (True, w))"

section \<open>Expansion of the command queue\<close>

text \<open>
  \<^verbatim>\<open>commandQueue[i]\<close> is \<^verbatim>\<open>undefined\<close> past the end of the queue, and \<^verbatim>\<open>!next\<close>
  holds of \<^verbatim>\<open>undefined\<close> and of the empty string.
\<close>

definition queueAt :: "string list \<Rightarrow> nat \<Rightarrow> string option" where
  "queueAt q i = (if i < length q then Some (q ! i) else None)"

text \<open>The steps pushed by iteration \<open>i\<close> of the loop (only entered with \<open>i < length q\<close>).\<close>

definition expandStep :: "string list \<Rightarrow> nat \<Rightarrow> step list" where
  "expandStep q i =
    (let cmd = q ! i in
     if cmd = ''LOOP2'' then
       (case queueAt q (i + 1) of
          None \<Rightarrow> [\<lparr>fromIndex = i, action = ''NOOP''\<rparr>]
        | Some next \<Rightarrow>
            if next = [] then [\<lparr>fromIndex = i, action = ''NOOP''\<rparr>]
            else [\<lparr>fromIndex = i, action = next\<rparr>, \<lparr>fromIndex = i, action = next\<rparr>])
     else if cmd = ''IFBLUE_R'' then [\<lparr>fromIndex = i, action = ''IFBLUE_R''\<rparr>]
     else if cmd = ''IFBLUE_L'' then [\<lparr>fromIndex = i, action = ''IFBLUE_L''\<rparr>]
     else [\<lparr>fromIndex = i, action = cmd\<rparr>])"

function expandLoop :: "string list \<Rightarrow> nat \<Rightarrow> step list \<Rightarrow> step list" where
  "expandLoop q i steps =
     (if i < length q then expandLoop q (i + 1) (steps @ expandStep q i) else steps)"
  by pat_completeness auto
termination
  by (relation "measure (\<lambda>(q, i, steps). length q - i)") auto

declare expandLoop.simps [simp del]

definition expandCommandsForExecution :: "string list \<Rightarrow> step list" where
  "expandCommandsForExecution q = expandLoop q 0 []"

text \<open>A queue built by the command buttons holds tokens of \<open>COMMAND_LABELS\<close> only.\<close>

definition authored :: "string list \<Rightarrow> bool" where
  "authored q = list_all (\<lambda>cmd. cmd \<in> set COMMAND_LABELS) q"

section \<open>The run\<close>

definition endExecutionCheck :: "world \<Rightarrow> world" where
  "endExecutionCheck w =
    (let w1 = setQueueHighlight None (w\<lparr>isRunning := False\<rparr>) in
     if agent_x (agentState w1) = fst (goalPos w1) \<and> agent_y (agentState w1) = snd (goalPos w1)
     then showSuccessOverlay (updateStatus StatusGoalReached w1)
     else showFailOverlay (updateStatus StatusNotAtGoal w1))"

text \<open>
  The timer of \<^verbatim>\<open>startExecution\<close>, one call of the callback after the other:
  \<open>stepIndex\<close> counts the steps handed to \<open>performStep\<close>, and the result carries its
  final value. After a step that returns \<^verbatim>\<open>false\<close> the timer is cleared and
  \<open>endExecutionCheck\<close> runs (after a delay); the delays themselves are not modelled.
\<close>

function runTimer :: "step list \<Rightarrow> nat \<Rightarrow> world \<Rightarrow> js_error + (nat \<times> world)" where
  "runTimer steps stepIndex w =
    (if stepIndex \<ge> length steps then Inr (stepIndex, endExecutionCheck w)
     else
       (let stp = steps ! stepIndex;
            w1 = setQueueHighlight (Some (fromIndex stp)) w in
        case performStep stp w1 of
          Inl e \<Rightarrow> Inl e
        | Inr (continueRun, w2) \<Rightarrow>
            if \<not> continueRun then Inr (stepIndex + 1, endExecutionCheck w2)
            else runTimer steps (stepIndex + 1) w2))"
  by pat_completeness auto
termination
  by (relation "measure (\<lambda>(steps, stepIndex, w). length steps - stepIndex)") auto

declare runTimer.simps [simp del]

definition startExecution :: "world \<Rightarrow> js_error + (nat \<times> world)" where
  "startExecution w =
    (let w1 = resetAgentToStart
                (setQueueHighlight None (updateStatus StatusStart (w\<lparr>isRunning := True\<rparr>)));
         steps = expandCommandsForExecution (commandQueue w1) in
     if steps = [] then Inr (0, (updateStatus StatusNoSteps w1)\<lparr>isRunning := False\<rparr>)
     else runTimer steps 0 w1)"

text \<open>
  The world after all of \<open>steps\<close> from \<open>stepIndex\<close> on were performed and each returned
  \<^verbatim>\<open>true\<close>; \<open>None\<close> when one of them returned \<^verbatim>\<open>false\<close> or threw. It names the runs
  that consume their steps to the end.
\<close>

fun consumeAll :: "step list \<Rightarrow> world \<Rightarrow> world option" where
  "consumeAll [] w = Some w"
| "consumeAll (stp # rest) w =
    (case performStep stp (setQueueHighlight (Some (fromIndex stp)) w) of
       Inl e \<Rightarrow> None
     | Inr (continueRun, w2) \<Rightarrow> if continueRun then consumeAll rest w2 else None)"

section \<open>The path-first map generator\<close>

text \<open>
  The generator draws from \<^verbatim>\<open>Math.random()\<close>, a number in \<open>[0, 1)\<close>. The draws are
  read from a tape \<open>rnd\<close>, draw number \<open>k\<close> being \<open>rnd k\<close>; each function takes the
  number of the next draw and returns it advanced. The theorems about the generator
  assume every draw to lie in \<open>[0, 1)\<close>, as \<^verbatim>\<open>Math.random()\<close> promises.
\<close>

type_synonym tape = "nat \<Rightarrow> rat"

definition unitDraws :: "tape \<Rightarrow> bool" where
  "unitDraws rnd = (\<forall>k. 0 \<le> rnd k \<and> rnd k < 1)"

text \<open>\<^verbatim>\<open>Math.floor(Math.random() * (max - min + 1)) + min\<close> on the draw \<open>u\<close>.\<close>

definition randInt :: "int \<Rightarrow> int \<Rightarrow> rat \<Rightarrow> int" where
  "randInt lo hi u = \<lfloor>u * of_int (hi - lo + 1)\<rfloor> + lo"

definition emptyGrid :: grid where
  "emptyGrid =
     (\<lambda>y. if 0 \<le> y \<and> y < GRID_SIZE
          then Some (\<lambda>x. if 0 \<le> x \<and> x < GRID_SIZE then Some Empty else None)
          else None)"

text \<open>
  The \<^verbatim>\<open>do ... while\<close> loop that draws the goal. It returns the goal, the number of
  attempts and the number of the next draw.
\<close>

function pickGoal :: "tape \<Rightarrow> int \<times> int \<Rightarrow> nat \<Rightarrow> nat \<Rightarrow> (int \<times> int) \<times> nat \<times> nat" where
  "pickGoal rnd start attempts k =
    (let gx = randInt 0 (GRID_SIZE - 1) (rnd k);
         gy = randInt 0 (GRID_SIZE - 1) (rnd (k + 1));
         attempts1 = attempts + 1 in
     if attempts1 > 50 then ((gx, gy), attempts1, k + 2)
     else if (gx = fst start \<and> gy = snd start)
             \<or> \<bar>gx - fst start\<bar> + \<bar>gy - snd start\<bar> < 6
     then pickGoal rnd start attempts1 (k + 2)
     else ((gx, gy), attempts1, k + 2))"
  by pat_completeness auto
termination
  by (relation "measure (\<lambda>(rnd, start, attempts, k). 51 - attempts)") auto

declare pickGoal.simps [simp del]

text \<open>The corner points of \<^verbatim>\<open>generateSolutionPath\<close>, before the cells between them are filled in.\<close>

definition pathPoints :: "int \<times> int \<Rightarrow> int \<times> int \<Rightarrow> bool \<Rightarrow> (int \<times> int) list" where
  "pathPoints start goal useHorizontalFirst =
    (let path0 = [start];
         path2 =
           (if useHorizontalFirst then
              (let midX = fst goal; midY = snd start;
                   path1 = (if midX \<noteq> fst start then path0 @ [(midX, midY)] else path0)
               in if midY \<noteq> snd goal then path1 @ [goal] else path1)
            else
              (let midX = fst start; midY = snd goal;
                   path1 = (if midY \<noteq> snd start then path0 @ [(midX, midY)] else path0)
               in if midX \<noteq> fst goal then path1 @ [goal] else path1))
     in if fst (last path2) \<noteq> fst goal \<or> snd (last path2) \<noteq> snd goal
        then path2 @ [goal] else path2)"

text \<open>
  The two inner \<^verbatim>\<open>for\<close> loops, which run until the coordinate \<^emph>\<open>equals\<close> the target:
  \<open>None\<close> stands for a loop that never ends.
\<close>

partial_function (option) fillVertical ::
    "int \<Rightarrow> int \<Rightarrow> int \<Rightarrow> int \<Rightarrow> (int \<times> int) list \<Rightarrow> (int \<times> int) list option" where
  "fillVertical fromX y stepY toY expandedPath =
     (if y \<noteq> toY then fillVertical fromX (y + stepY) stepY toY (expandedPath @ [(fromX, y)])
      else Some expandedPath)"

partial_function (option) fillHorizontal ::
    "int \<Rightarrow> int \<Rightarrow> int \<Rightarrow> int \<Rightarrow> (int \<times> int) list \<Rightarrow> (int \<times> int) list option" where
  "fillHorizontal fromY x stepX toX expandedPath =
     (if x \<noteq> toX then fillHorizontal fromY (x + stepX) stepX toX (expandedPath @ [(x, fromY)])
      else Some expandedPath)"

declare fillVertical.simps [code]

declare fillHorizontal.simps [code]

text \<open>The outer loop over the pairs \<open>path[i], path[i + 1]\<close>.\<close>

fun expandPath :: "(int \<times> int) list \<Rightarrow> (int \<times> int) list \<Rightarrow> (int \<times> int) list option" where
  "expandPath (from # to # rest) expandedPath =
    (let expanded1 = expandedPath @ [from] in
     case (if fst from = fst to
           then fillVertical (fst from)
                  (snd from + (if snd from < snd to then 1 else -1))
                  (if snd from < snd to then 1 else -1) (snd to) expanded1
           else if snd from = snd to
           then fillHorizontal (snd from)
                  (fst from + (if fst from < fst to then 1 else -1))
                  (if fst from < fst to then 1 else -1) (fst to) expanded1
           else Some expanded1) of
       None \<Rightarrow> None
     | Some expanded2 \<Rightarrow> expandPath (to # rest) expanded2)"
| "expandPath path expandedPath = Some expandedPath"

text \<open>\<^verbatim>\<open>generateSolutionPath(start, goal)\<close> on the draw \<open>u\<close> of its \<^verbatim>\<open>Math.random() > 0.5\<close>.\<close>

definition generateSolutionPath :: "int \<times> int \<Rightarrow> int \<times> int \<Rightarrow> rat \<Rightarrow> (int \<times> int) list option" where
  "generateSolutionPath start goal u =
    (case expandPath (pathPoints start goal (u > 1 / 2)) [] of
       None \<Rightarrow> None
     | Some expandedPath \<Rightarrow> Some (expandedPath @ [goal]))"

text \<open>
  \<^verbatim>\<open>findCorners(path)\<close>: the loop over the inner cells of the path with their two
  neighbours. The middle cell, \<^verbatim>\<open>curr\<close> in the source, is called \<open>corner\<close> here.
\<close>

fun findCorners :: "(int \<times> int) list \<Rightarrow> (int \<times> int) list" where
  "findCorners (prev # corner # next # rest) =
    (let dx1 = fst corner - fst prev; dy1 = snd corner - snd prev;
         dx2 = fst next - fst corner; dy2 = snd next - snd corner in
     (if (dx1 \<noteq> 0 \<and> dy2 \<noteq> 0) \<or> (dy1 \<noteq> 0 \<and> dx2 \<noteq> 0) then [corner] else [])
       @ findCorners (corner # next # rest))"
| "findCorners path = []"

text \<open>
  The Fisher-Yates shuffle. An entry of the array is \<open>Some\<close> cell or \<^verbatim>\<open>undefined\<close>
  (\<open>None\<close>): the swap with an index \<open>j\<close> outside the array reads \<^verbatim>\<open>undefined\<close> and
  writes past the end (or, for a negative \<open>j\<close>, beside the array).
\<close>

definition swapEntries :: "'a option list \<Rightarrow> nat \<Rightarrow> int \<Rightarrow> 'a option list" where
  "swapEntries shuffled i j =
    (let vi = shuffled ! i;
         vj = (if 0 \<le> j \<and> nat j < length shuffled then shuffled ! nat j else None);
         shuffled1 = shuffled[i := vj]
     in if j < 0 then shuffled1
        else if nat j < length shuffled1 then shuffled1[nat j := vi]
        else shuffled1 @ replicate (nat j - length shuffled1) None @ [vi])"

fun shuffleLoop :: "tape \<Rightarrow> nat \<Rightarrow> 'a option list \<Rightarrow> nat \<Rightarrow> 'a option list \<times> nat" where
  "shuffleLoop rnd 0 shuffled k = (shuffled, k)"
| "shuffleLoop rnd (Suc i) shuffled k =
     shuffleLoop rnd i (swapEntries shuffled (Suc i) \<lfloor>rnd k * of_nat (Suc i + 1)\<rfloor>) (k + 1)"

definition shuffleArray :: "tape \<Rightarrow> 'a option list \<Rightarrow> nat \<Rightarrow> 'a option list \<times> nat" where
  "shuffleArray rnd array k = shuffleLoop rnd (length array - 1) array k"

text \<open>\<^verbatim>\<open>array.slice(0, n)\<close>: a negative \<open>n\<close> counts from the end.\<close>

definition slice0 :: "'a list \<Rightarrow> int \<Rightarrow> 'a list" where
  "slice0 array n = (if n < 0 then take (nat (int (length array) + n)) array else take (nat n) array)"

text \<open>
  The \<^verbatim>\<open>forEach\<close> that marks the selected corners blue; destructuring an
  \<^verbatim>\<open>undefined\<close> entry throws.
\<close>

fun placeBlue ::
    "(int \<times> int) option list \<Rightarrow> int \<times> int \<Rightarrow> int \<times> int \<Rightarrow> grid \<Rightarrow> js_error + grid" where
  "placeBlue [] start goal g = Inr g"
| "placeBlue (c # cs) start goal g =
    (case c of
       None \<Rightarrow> Inl TypeError
     | Some (x, y) \<Rightarrow>
         if \<not> (x = fst start \<and> y = snd start) \<and> \<not> (x = fst goal \<and> y = snd goal)
         then (case setCell g y x Blue of Inl e \<Rightarrow> Inl e | Inr g1 \<Rightarrow> placeBlue cs start goal g1)
         else placeBlue cs start goal g)"

text \<open>
  The loop that places the walls. \<open>pathCells\<close> is the set of the keys \<^verbatim>\<open>"x,y"\<close> of
  the solution path; as a key determines its cell, membership of the key is membership
  of the cell in the path.
\<close>

function placeWalls ::
    "tape \<Rightarrow> (int \<times> int) list \<Rightarrow> int \<times> int \<Rightarrow> int \<times> int \<Rightarrow> int \<Rightarrow> int \<Rightarrow> nat \<Rightarrow> grid \<Rightarrow> nat
       \<Rightarrow> js_error + (grid \<times> nat)" where
  "placeWalls rnd pathCells start goal wallCount placedWalls wallAttempts g k =
    (if placedWalls < wallCount \<and> wallAttempts < 100 then
       (let x = randInt 0 (GRID_SIZE - 1) (rnd k);
            y = randInt 0 (GRID_SIZE - 1) (rnd (k + 1)) in
        if (x, y) \<notin> set pathCells
           \<and> \<not> (x = fst start \<and> y = snd start)
           \<and> \<not> (x = fst goal \<and> y = snd goal)
        then
          (case cellAt g y x of
             Inl e \<Rightarrow> Inl e
           | Inr c \<Rightarrow>
               if c = Some Empty then
                 (case setCell g y x Wall of
                    Inl e \<Rightarrow> Inl e
                  | Inr g1 \<Rightarrow>
                      placeWalls rnd pathCells start goal wallCount (placedWalls + 1)
                        (wallAttempts + 1) g1 (k + 2))
               else placeWalls rnd pathCells start goal wallCount placedWalls
                      (wallAttempts + 1) g (k + 2))
        else placeWalls rnd pathCells start goal wallCount placedWalls
               (wallAttempts + 1) g (k + 2))
     else Inr (g, k))"
  by pat_completeness auto
termination
  by (relation "measure (\<lambda>(rnd, pathCells, start, goal, wallCount, placedWalls, wallAttempts, g, k).
                           100 - wallAttempts)") auto

declare placeWalls.simps [simp del]

text \<open>
  \<^verbatim>\<open>generateRandomMap()\<close>, with the local \<open>solutionPath\<close> handed out beside the new
  world and the number of the next draw. The outer \<open>None\<close> is a generator that never
  returns, \<open>Inl\<close> one that throws.
\<close>

definition generateRandomMapPath ::
    "tape \<Rightarrow> nat \<Rightarrow> world \<Rightarrow> (js_error + (world \<times> (int \<times> int) list \<times> nat)) option" where
  "generateRandomMapPath rnd k w =
    (let start = (0, 0);
         (goal, attempts, k1) = pickGoal rnd start 0 k in
     case setCell emptyGrid (snd goal) (fst goal) Goal of
       Inl e \<Rightarrow> Some (Inl e)
     | Inr g1 \<Rightarrow>
        (case generateSolutionPath start goal (rnd k1) of
           None \<Rightarrow> None
         | Some solutionPath \<Rightarrow>
            (let corners = findCorners solutionPath;
                 blueCount = min (randInt 1 2 (rnd (k1 + 1))) (int (length corners));
                 (shuffled, k2) = shuffleArray rnd (map Some corners) (k1 + 2);
                 selectedCorners = slice0 shuffled blueCount in
             case placeBlue selectedCorners start goal g1 of
               Inl e \<Rightarrow> Some (Inl e)
             | Inr g2 \<Rightarrow>
                (case placeWalls rnd solutionPath start goal (randInt 3 5 (rnd k2)) 0 0 g2 (k2 + 1) of
                   Inl e \<Rightarrow> Some (Inl e)
                 | Inr (g3, k3) \<Rightarrow>
                     Some (Inr (w\<lparr>grid := g3, startPos := start, goalPos := goal,
                                   agentState := (agentState w)\<lparr>agent_x := fst start,
                                                                agent_y := snd start\<rparr>\<rparr>,
                                solutionPath, k3))))))"

definition generateRandomMap :: "tape \<Rightarrow> nat \<Rightarrow> world \<Rightarrow> (js_error + (world \<times> nat)) option" where
  "generateRandomMap rnd k w =
    (case generateRandomMapPath rnd k w of
       None \<Rightarrow> None
     | Some (Inl e) \<Rightarrow> Some (Inl e)
     | Some (Inr (w1, solutionPath, k1)) \<Rightarrow> Some (Inr (w1, k1)))"

text \<open>The Manhattan distance of the loop condition.\<close>

definition manhattan :: "int \<times> int \<Rightarrow> int \<times> int \<Rightarrow> int" where
  "manhattan p q = \<bar>fst q - fst p\<bar> + \<bar>snd q - snd p\<bar>"

section \<open>Notions used in the statements\<close>

text \<open>
  The candidate position of a forward step (\<open>nextX\<close>, \<open>nextY\<close> of \<open>performStep\<close>), the
  test that it lies on the grid (the negation of the bounds check), the world with the
  agent moved, and the test of \<open>endExecutionCheck\<close>.
\<close>

definition candidate :: "agent \<Rightarrow> int \<times> int" where
  "candidate a = (agent_x a + fst (DIRS ! agent_dir a), agent_y a + fst (snd (DIRS ! agent_dir a)))"

definition inGrid :: "int \<times> int \<Rightarrow> bool" where
  "inGrid p = (0 \<le> fst p \<and> fst p < GRID_SIZE \<and> 0 \<le> snd p \<and> snd p < GRID_SIZE)"

definition moveTo :: "int \<times> int \<Rightarrow> world \<Rightarrow> world" where
  "moveTo p w = w\<lparr>agentState := (agentState w)\<lparr>agent_x := fst p, agent_y := snd p\<rparr>\<rparr>"

definition atGoal :: "world \<Rightarrow> bool" where
  "atGoal w = (agent_x (agentState w) = fst (goalPos w) \<and> agent_y (agentState w) = snd (goalPos w))"

text \<open>
  Two notions of the proofs about the generator. A list of corner points is walked
  by the fill loops to their end when no two neighbours on one column share the line.
  The invariant of the grid while blue cells and walls are placed: the five rows
  exist, the goal cell is the cell of kind goal, the start cell is neither wall nor
  blue, and no cell of the solution path is a wall.
\<close>

fun alignedDistinct :: "(int \<times> int) list \<Rightarrow> bool" where
  "alignedDistinct (a # b # rest) = ((fst a = fst b \<longrightarrow> snd a \<noteq> snd b) \<and> alignedDistinct (b # rest))"
| "alignedDistinct path = True"

definition gridInv :: "int \<times> int \<Rightarrow> int \<times> int \<Rightarrow> (int \<times> int) list \<Rightarrow> grid \<Rightarrow> bool" where
  "gridInv start goal path g =
    ((\<forall>y. 0 \<le> y \<and> y < GRID_SIZE \<longrightarrow> g y \<noteq> None)
     \<and> (\<forall>x y. cellAt g y x = Inr (Some Goal) \<longleftrightarrow> (x, y) = goal)
     \<and> cellAt g (snd start) (fst start) \<noteq> Inr (Some Wall)
     \<and> cellAt g (snd start) (fst start) \<noteq> Inr (Some Blue)
     \<and> (\<forall>p\<in>set path. cellAt g (snd p) (fst p) \<noteq> Inr (Some Wall)))"

text \<open>
  A sample world for the concrete instances: goal at \<open>(4, 4)\<close>, a blue cell at
  \<open>(4, 0)\<close>, a wall at \<open>(1, 1)\<close>, the agent at the start heading right.
\<close>

definition demoGrid :: grid where
  "demoGrid =
     (\<lambda>y. if 0 \<le> y \<and> y < 5
          then Some (\<lambda>x. if 0 \<le> x \<and> x < 5
                         then Some (if x = 4 \<and> y = 4 then Goal
                                    else if x = 4 \<and> y = 0 then Blue
                                    else if x = 1 \<and> y = 1 then Wall
                                    else Empty)
                         else None)
          else None)"

definition demoWorld :: world where
  "demoWorld =
     \<lparr>grid = demoGrid, startPos = (0, 0), goalPos = (4, 4),
      agentState = \<lparr>agent_x = 0, agent_y = 0, agent_dir = 1\<rparr>,
      commandQueue = [], isRunning = False, currentHighlightIndex = None,
      overlaySuccessHidden = True, overlayFailHidden = True, statusText = StatusReady\<rparr>"

definition agentAt :: "int \<Rightarrow> int \<Rightarrow> nat \<Rightarrow> world \<Rightarrow> world" where
  "agentAt x y d w = w\<lparr>agentState := \<lparr>agent_x = x, agent_y = y, agent_dir = d\<rparr>\<rparr>"

definition demoSteps :: "step list" where
  "demoSteps = [\<lparr>fromIndex = 0, action = ''R''\<rparr>, \<lparr>fromIndex = 1, action = ''F''\<rparr>,
                \<lparr>fromIndex = 2, action = ''R''\<rparr>, \<lparr>fromIndex = 3, action = ''F''\<rparr>]"



section \<open>The expander\<close>

lemma expandLoop_concat:
  "expandLoop q i steps = steps @ concat (map (expandStep q) [i..<length q])"
proof (induction q i steps rule: expandLoop.induct)
  case (1 q i steps)
  show ?case
  proof (cases "i < length q")
    case True
    then have "[i..<length q] = i # [i + 1..<length q]"
      by (simp add: upt_conv_Cons)
    with True 1 show ?thesis by (subst expandLoop.simps) simp
  next
    case False
    then show ?thesis by (subst expandLoop.simps) simp
  qed
qed

lemma expand_concat:
  "expandCommandsForExecution q = concat (map (expandStep q) [0..<length q])"
  by (simp add: expandCommandsForExecution_def expandLoop_concat del: expandLoop.simps)

lemma authored_nonempty: "authored q \<Longrightarrow> i < length q \<Longrightarrow> q ! i \<noteq> []"
  by (auto simp: authored_def COMMAND_LABELS_def list_all_length)

text \<open>
  C1. In a queue of command tokens, a \<^verbatim>\<open>LOOP2\<close> at index \<open>i\<close> with a following command
  pushes two steps whose action is the following token, both with \<open>fromIndex = i\<close>.
  The loop does not skip the follower: the expansion is the concatenation of what each
  index pushes, so the steps of index \<open>i + 1\<close> follow, and a follower other than
  \<^verbatim>\<open>LOOP2\<close> pushes one step of its own token there. In particular the queue
  \<^verbatim>\<open>[LOOP2, F]\<close> expands to \<^verbatim>\<open>F\<close> from 0, \<^verbatim>\<open>F\<close> from 0, \<^verbatim>\<open>F\<close> from 1.
\<close>

theorem expand_LOOP2_follower:
  assumes "authored q" and "i + 1 < length q" and "q ! i = ''LOOP2''"
  shows "expandStep q i = [\<lparr>fromIndex = i, action = q ! (i + 1)\<rparr>, \<lparr>fromIndex = i, action = q ! (i + 1)\<rparr>]
     \<and> (q ! (i + 1) \<noteq> ''LOOP2'' \<longrightarrow> expandStep q (i + 1) = [\<lparr>fromIndex = i + 1, action = q ! (i + 1)\<rparr>])
     \<and> expandCommandsForExecution q =
         concat (map (expandStep q) [0..<i]) @ expandStep q i @ expandStep q (i + 1)
           @ concat (map (expandStep q) [i + 2..<length q])
     \<and> expandCommandsForExecution [''LOOP2'', ''F''] =
         [\<lparr>fromIndex = 0, action = ''F''\<rparr>, \<lparr>fromIndex = 0, action = ''F''\<rparr>,
          \<lparr>fromIndex = 1, action = ''F''\<rparr>]"
proof -
  have ne: "q ! (i + 1) \<noteq> []"
    using assms(1,2) by (rule authored_nonempty)
  have a: "expandStep q i = [\<lparr>fromIndex = i, action = q ! (i + 1)\<rparr>, \<lparr>fromIndex = i, action = q ! (i + 1)\<rparr>]"
    using assms(2,3) ne by (simp add: expandStep_def queueAt_def)
  have b: "q ! (i + 1) \<noteq> ''LOOP2'' \<longrightarrow> expandStep q (i + 1) = [\<lparr>fromIndex = i + 1, action = q ! (i + 1)\<rparr>]"
    by (simp add: expandStep_def Let_def)
  have "[0..<length q] = [0..<i] @ [i..<length q]"
    using assms(2) upt_add_eq_append [of 0 i "length q - i"] by simp
  also have "[i..<length q] = i # (i + 1) # [i + 2..<length q]"
    using assms(2) by (simp add: upt_conv_Cons)
  finally have c: "expandCommandsForExecution q =
         concat (map (expandStep q) [0..<i]) @ expandStep q i @ expandStep q (i + 1)
           @ concat (map (expandStep q) [i + 2..<length q])"
    by (simp add: expand_concat)
  have d: "expandCommandsForExecution [''LOOP2'', ''F''] =
         [\<lparr>fromIndex = 0, action = ''F''\<rparr>, \<lparr>fromIndex = 0, action = ''F''\<rparr>,
          \<lparr>fromIndex = 1, action = ''F''\<rparr>]"
    by (simp add: expand_concat expandStep_def queueAt_def upt_conv_Cons)
  from a b c d show ?thesis by blast
qed

theorem expand_LOOP2_follower_witness:
  "authored [''LOOP2'', ''L''] \<and> 0 + 1 < length [''LOOP2'', ''L''] \<and> [''LOOP2'', ''L''] ! 0 = ''LOOP2''
   \<and> expandCommandsForExecution [''LOOP2'', ''L''] =
       [\<lparr>fromIndex = 0, action = ''L''\<rparr>, \<lparr>fromIndex = 0, action = ''L''\<rparr>,
        \<lparr>fromIndex = 1, action = ''L''\<rparr>]"
  using expand_LOOP2_follower [of "[''LOOP2'', ''L'']" 0]
  by (simp add: authored_def COMMAND_LABELS_def)

text \<open>
  C4, as the expander has it. The claim that a trailing conditional becomes a
  \<^verbatim>\<open>NOOP\<close> fails: the queue \<^verbatim>\<open>[IFBLUE_R]\<close> expands to the one step \<^verbatim>\<open>IFBLUE_R\<close>.
\<close>

theorem expand_trailing_conditional_counterexample:
  "authored [''IFBLUE_R''] \<and> last [''IFBLUE_R''] = ''IFBLUE_R''
   \<and> expandCommandsForExecution [''IFBLUE_R''] = [\<lparr>fromIndex = 0, action = ''IFBLUE_R''\<rparr>]
   \<and> \<lparr>fromIndex = 0, action = ''NOOP''\<rparr> \<notin> set (expandCommandsForExecution [''IFBLUE_R''])"
  by (simp add: authored_def COMMAND_LABELS_def expand_concat expandStep_def)

text \<open>
  C4 (amended). For a non-empty queue, the last index pushes: one \<^verbatim>\<open>NOOP\<close> step
  with that index when the last command is \<^verbatim>\<open>LOOP2\<close>; one step of the conditional
  itself with that index when it is \<^verbatim>\<open>IFBLUE_R\<close> or \<^verbatim>\<open>IFBLUE_L\<close>. The expander
  is a total function into step lists: it has no throwing branch.
\<close>

theorem expand_trailing_modifier:
  assumes "q \<noteq> []"
  shows "expandCommandsForExecution q =
           concat (map (expandStep q) [0..<length q - 1]) @ expandStep q (length q - 1)
     \<and> (last q = ''LOOP2'' \<longrightarrow>
          expandStep q (length q - 1) = [\<lparr>fromIndex = length q - 1, action = ''NOOP''\<rparr>])
     \<and> (last q = ''IFBLUE_R'' \<longrightarrow>
          expandStep q (length q - 1) = [\<lparr>fromIndex = length q - 1, action = ''IFBLUE_R''\<rparr>])
     \<and> (last q = ''IFBLUE_L'' \<longrightarrow>
          expandStep q (length q - 1) = [\<lparr>fromIndex = length q - 1, action = ''IFBLUE_L''\<rparr>])"
proof -
  from assms have l: "last q = q ! (length q - 1)"
    by (simp add: last_conv_nth)
  from assms have "[0..<length q] = [0..<length q - 1] @ [length q - 1]"
    by (cases q rule: rev_cases) simp_all
  then have "expandCommandsForExecution q =
           concat (map (expandStep q) [0..<length q - 1]) @ expandStep q (length q - 1)"
    by (simp add: expand_concat)
  with assms l show ?thesis
    by (simp add: expandStep_def queueAt_def)
qed

theorem expand_trailing_modifier_witness:
  "[''F'', ''LOOP2''] \<noteq> [] \<and> last [''F'', ''LOOP2''] = ''LOOP2''
   \<and> expandCommandsForExecution [''F'', ''LOOP2''] =
       [\<lparr>fromIndex = 0, action = ''F''\<rparr>, \<lparr>fromIndex = 1, action = ''NOOP''\<rparr>]
   \<and> [''L'', ''IFBLUE_L''] \<noteq> [] \<and> last [''L'', ''IFBLUE_L''] = ''IFBLUE_L''
   \<and> expandCommandsForExecution [''L'', ''IFBLUE_L''] =
       [\<lparr>fromIndex = 0, action = ''L''\<rparr>, \<lparr>fromIndex = 1, action = ''IFBLUE_L''\<rparr>]"
proof -
  have a: "expandStep [''F'', ''LOOP2''] 0 = [\<lparr>fromIndex = 0, action = ''F''\<rparr>]"
    and b: "expandStep [''L'', ''IFBLUE_L''] 0 = [\<lparr>fromIndex = 0, action = ''L''\<rparr>]"
    by (simp_all add: expandStep_def)
  from expand_trailing_modifier [of "[''F'', ''LOOP2'']"]
       expand_trailing_modifier [of "[''L'', ''IFBLUE_L'']"] a b
  show ?thesis by simp
qed

section \<open>Turns\<close>

text \<open>
  C6. A \<^verbatim>\<open>L\<close> step sets the heading to \<open>(heading + 3) mod 4\<close>, a \<^verbatim>\<open>R\<close> step to
  \<open>(heading + 1) mod 4\<close>; both leave everything else of the world, the position
  included, as it was, and both return \<^verbatim>\<open>true\<close> (the run continues).
\<close>

theorem performStep_turns:
  "performStep \<lparr>fromIndex = i, action = ''L''\<rparr> w =
     Inr (True, w\<lparr>agentState := (agentState w)\<lparr>agent_dir := (agent_dir (agentState w) + 3) mod 4\<rparr>\<rparr>)
   \<and> performStep \<lparr>fromIndex = i, action = ''R''\<rparr> w =
     Inr (True, w\<lparr>agentState := (agentState w)\<lparr>agent_dir := (agent_dir (agentState w) + 1) mod 4\<rparr>\<rparr>)"
  by (simp add: performStep_def Let_def)

text \<open>
  C5. When the read of the agent's own cell yields \<open>c\<close> (the row exists), an
  \<^verbatim>\<open>IFBLUE_R\<close> step on a blue cell sets the heading to \<open>(heading + 1) mod 4\<close> and an
  \<^verbatim>\<open>IFBLUE_L\<close> step to \<open>(heading + 3) mod 4\<close>; on any other cell the world is returned
  as it was. In all four cases nothing but the heading changes and the step returns
  \<^verbatim>\<open>true\<close>.
\<close>

theorem performStep_ifblue:
  assumes "cellAt (grid w) (agent_y (agentState w)) (agent_x (agentState w)) = Inr c"
  shows "performStep \<lparr>fromIndex = i, action = ''IFBLUE_R''\<rparr> w =
           Inr (True, if c = Some Blue
                      then w\<lparr>agentState := (agentState w)\<lparr>agent_dir := (agent_dir (agentState w) + 1) mod 4\<rparr>\<rparr>
                      else w)
       \<and> performStep \<lparr>fromIndex = i, action = ''IFBLUE_L''\<rparr> w =
           Inr (True, if c = Some Blue
                      then w\<lparr>agentState := (agentState w)\<lparr>agent_dir := (agent_dir (agentState w) + 3) mod 4\<rparr>\<rparr>
                      else w)"
  using assms by (simp add: performStep_def Let_def)

theorem performStep_ifblue_witness:
  "cellAt (grid (agentAt 4 0 1 demoWorld)) 0 4 = Inr (Some Blue)
   \<and> performStep \<lparr>fromIndex = 0, action = ''IFBLUE_R''\<rparr> (agentAt 4 0 1 demoWorld) =
       Inr (True, agentAt 4 0 2 demoWorld)
   \<and> performStep \<lparr>fromIndex = 0, action = ''IFBLUE_L''\<rparr> (agentAt 4 0 1 demoWorld) =
       Inr (True, agentAt 4 0 0 demoWorld)
   \<and> cellAt (grid (agentAt 3 0 1 demoWorld)) 0 3 = Inr (Some Empty)
   \<and> performStep \<lparr>fromIndex = 0, action = ''IFBLUE_R''\<rparr> (agentAt 3 0 1 demoWorld) =
       Inr (True, agentAt 3 0 1 demoWorld)
   \<and> performStep \<lparr>fromIndex = 0, action = ''IFBLUE_L''\<rparr> (agentAt 3 0 1 demoWorld) =
       Inr (True, agentAt 3 0 1 demoWorld)"
  using performStep_ifblue [of "agentAt 4 0 1 demoWorld" "Some Blue" 0]
        performStep_ifblue [of "agentAt 3 0 1 demoWorld" "Some Empty" 0]
  by (simp add: agentAt_def demoWorld_def demoGrid_def cellAt_def)

section \<open>Forward steps\<close>



lemma endExecutionCheck_overlay:
  "atGoal w \<Longrightarrow>
     \<not> overlaySuccessHidden (endExecutionCheck w) \<and> overlayFailHidden (endExecutionCheck w)
     \<and> statusText (endExecutionCheck w) = StatusGoalReached"
  "\<not> atGoal w \<Longrightarrow>
     overlaySuccessHidden (endExecutionCheck w) \<and> \<not> overlayFailHidden (endExecutionCheck w)
     \<and> statusText (endExecutionCheck w) = StatusNotAtGoal"
  by (simp_all add: endExecutionCheck_def atGoal_def showSuccessOverlay_def showFailOverlay_def
        updateStatus_def setQueueHighlight_def Let_def)




lemma startExecution_runs:
  "expandCommandsForExecution (commandQueue w) \<noteq> [] \<Longrightarrow>
     startExecution w =
       runTimer (expandCommandsForExecution (commandQueue w)) 0
         (resetAgentToStart (setQueueHighlight None (updateStatus StatusStart (w\<lparr>isRunning := True\<rparr>))))"
  by (simp add: startExecution_def Let_def resetAgentToStart_def setQueueHighlight_def
        updateStatus_def)

lemma performStep_onto_goal:
  assumes "action stp = ''F''" and "agent_dir (agentState w) < 4"
    and "inGrid (candidate (agentState w))"
    and "cellAt (grid w) (snd (candidate (agentState w))) (fst (candidate (agentState w))) = Inr (Some Goal)"
  shows "performStep stp w =
           Inr (False, showSuccessOverlay (updateStatus StatusGoalReached (moveTo (candidate (agentState w)) w)))"
  using assms
  by (simp add: performStep_def Let_def candidate_def inGrid_def DIRS_def moveTo_def)

text \<open>
  C3. When the step at \<open>stepIndex\<close> is a \<^verbatim>\<open>F\<close> whose candidate cell is on the grid
  and is the goal cell, \<open>performStep\<close> moves the agent there, shows the success overlay
  and returns \<^verbatim>\<open>false\<close>; the timer stops with \<open>stepIndex + 1\<close> steps consumed, the
  agent on the candidate cell and its heading kept; where the goal cell is the goal
  position, the run ends with the success overlay; and whatever steps follow the
  forward step, the run is the same.
\<close>

theorem forward_onto_goal_halts:
  assumes "stepIndex < length steps" and "action (steps ! stepIndex) = ''F''"
    and "agent_dir (agentState w) < 4"
    and "inGrid (candidate (agentState w))"
    and "cellAt (grid w) (snd (candidate (agentState w))) (fst (candidate (agentState w))) = Inr (Some Goal)"
  shows "performStep (steps ! stepIndex) w =
           Inr (False, showSuccessOverlay (updateStatus StatusGoalReached (moveTo (candidate (agentState w)) w)))
     \<and> (\<exists>w'. runTimer steps stepIndex w = Inr (stepIndex + 1, w')
            \<and> (agent_x (agentState w'), agent_y (agentState w')) = candidate (agentState w)
            \<and> agent_dir (agentState w') = agent_dir (agentState w)
            \<and> \<not> isRunning w'
            \<and> (goalPos w = candidate (agentState w) \<longrightarrow>
                  \<not> overlaySuccessHidden w' \<and> overlayFailHidden w' \<and> statusText w' = StatusGoalReached))
     \<and> (\<forall>later. runTimer (take (stepIndex + 1) steps @ later) stepIndex w
                  = runTimer steps stepIndex w)"
proof -
  let ?hl = "setQueueHighlight (Some (fromIndex (steps ! stepIndex))) w"
  have st: "agentState ?hl = agentState w" "grid ?hl = grid w" "goalPos ?hl = goalPos w"
    by (simp_all add: setQueueHighlight_def)
  have p0: "performStep (steps ! stepIndex) w =
           Inr (False, showSuccessOverlay (updateStatus StatusGoalReached (moveTo (candidate (agentState w)) w)))"
    using assms(2-5) by (rule performStep_onto_goal)
  have p1: "performStep (steps ! stepIndex) ?hl =
           Inr (False, showSuccessOverlay (updateStatus StatusGoalReached (moveTo (candidate (agentState w)) ?hl)))"
    using performStep_onto_goal [of "steps ! stepIndex" ?hl] assms(2-5) by (simp add: st)
  let ?w' = "endExecutionCheck (showSuccessOverlay (updateStatus StatusGoalReached (moveTo (candidate (agentState w)) ?hl)))"
  have r: "runTimer steps stepIndex w = Inr (stepIndex + 1, ?w')"
    using assms(1) p1 by (subst runTimer.simps) (simp add: Let_def)
  have r2: "runTimer (take (stepIndex + 1) steps @ later) stepIndex w = Inr (stepIndex + 1, ?w')" for later
    using assms(1) p1 by (subst runTimer.simps) (simp add: Let_def nth_append)
  have props: "(agent_x (agentState ?w'), agent_y (agentState ?w')) = candidate (agentState w)
            \<and> agent_dir (agentState ?w') = agent_dir (agentState w)
            \<and> \<not> isRunning ?w'
            \<and> (goalPos w = candidate (agentState w) \<longrightarrow>
                  \<not> overlaySuccessHidden ?w' \<and> overlayFailHidden ?w' \<and> statusText ?w' = StatusGoalReached)"
    by (simp add: endExecutionCheck_def showSuccessOverlay_def showFailOverlay_def updateStatus_def
          moveTo_def setQueueHighlight_def Let_def prod_eq_iff)
  from p0 r r2 props show ?thesis by simp
qed

theorem forward_onto_goal_halts_witness:
  "1 < length demoSteps \<and> action (demoSteps ! 1) = ''F''
   \<and> agent_dir (agentState (agentAt 4 3 2 demoWorld)) < 4
   \<and> inGrid (candidate (agentState (agentAt 4 3 2 demoWorld)))
   \<and> cellAt (grid (agentAt 4 3 2 demoWorld)) 4 4 = Inr (Some Goal)
   \<and> goalPos (agentAt 4 3 2 demoWorld) = candidate (agentState (agentAt 4 3 2 demoWorld))
   \<and> (\<exists>w'. runTimer demoSteps 1 (agentAt 4 3 2 demoWorld) = Inr (2, w')
          \<and> (agent_x (agentState w'), agent_y (agentState w')) = (4, 4)
          \<and> \<not> overlaySuccessHidden w' \<and> overlayFailHidden w' \<and> statusText w' = StatusGoalReached)"
proof -
  let ?w = "agentAt 4 3 2 demoWorld"
  have h1: "1 < length demoSteps" and h2: "action (demoSteps ! 1) = ''F''"
    by (simp_all add: demoSteps_def)
  have h3: "agent_dir (agentState ?w) < 4"
    by (simp add: agentAt_def)
  have c: "candidate (agentState ?w) = (4, 4)"
    by (simp add: agentAt_def candidate_def DIRS_def)
  have h4: "inGrid (candidate (agentState ?w))"
    by (simp add: c inGrid_def GRID_SIZE_def)
  have cell: "cellAt (grid ?w) 4 4 = Inr (Some Goal)"
    by (simp add: agentAt_def demoWorld_def demoGrid_def cellAt_def)
  then have h5: "cellAt (grid ?w) (snd (candidate (agentState ?w))) (fst (candidate (agentState ?w)))
                   = Inr (Some Goal)"
    by (simp add: c)
  have g: "goalPos ?w = candidate (agentState ?w)"
    by (simp add: agentAt_def demoWorld_def candidate_def DIRS_def)
  from forward_onto_goal_halts [OF h1 h2 h3 h4 h5, THEN conjunct2, THEN conjunct1] g c
  have "\<exists>w'. runTimer demoSteps 1 ?w = Inr (2, w')
          \<and> (agent_x (agentState w'), agent_y (agentState w')) = (4, 4)
          \<and> \<not> overlaySuccessHidden w' \<and> overlayFailHidden w' \<and> statusText w' = StatusGoalReached"
    by auto
  with h1 h2 h3 h4 cell g show ?thesis by blast
qed

section \<open>The end of the queue\<close>

lemma runTimer_consumeAll:
  "consumeAll (drop i steps) w = Some w' \<Longrightarrow>
     runTimer steps i w = Inr (max i (length steps), endExecutionCheck w')"
proof (induction steps i w rule: runTimer.induct)
  case (1 steps stepIndex w)
  show ?case
  proof (cases "stepIndex \<ge> length steps")
    case True
    with "1.prems" show ?thesis by (subst runTimer.simps) simp
  next
    case False
    then have d: "drop stepIndex steps = steps ! stepIndex # drop (stepIndex + 1) steps"
      by (simp add: Cons_nth_drop_Suc)
    let ?stp = "steps ! stepIndex"
    let ?w1 = "setQueueHighlight (Some (fromIndex ?stp)) w"
    from "1.prems" d obtain w2 where
      ps: "performStep ?stp ?w1 = Inr (True, w2)" and
      rest: "consumeAll (drop (stepIndex + 1) steps) w2 = Some w'"
      by (auto split: sum.splits if_splits)
    from "1.IH" [OF False refl refl ps refl] rest
    have "runTimer steps (stepIndex + 1) w2 = Inr (max (stepIndex + 1) (length steps), endExecutionCheck w')"
      by simp
    with False ps show ?thesis
      by (subst runTimer.simps) (simp add: Let_def max_def)
  qed
qed

text \<open>
  C7. When every step of the sequence is performed and returns \<^verbatim>\<open>true\<close>, leaving
  the world \<open>w'\<close>, the timer consumes all the steps and ends with
  \<open>endExecutionCheck w'\<close>: the success overlay and status when the agent stands on
  the goal position, the failure overlay and the status of the exhausted queue
  otherwise.
\<close>

theorem queue_exhausted_outcome:
  assumes "consumeAll steps w = Some w'"
  shows "runTimer steps 0 w = Inr (length steps, endExecutionCheck w')
     \<and> agentState (endExecutionCheck w') = agentState w'
     \<and> (atGoal w' \<longrightarrow>
          \<not> overlaySuccessHidden (endExecutionCheck w') \<and> overlayFailHidden (endExecutionCheck w')
          \<and> statusText (endExecutionCheck w') = StatusGoalReached)
     \<and> (\<not> atGoal w' \<longrightarrow>
          overlaySuccessHidden (endExecutionCheck w') \<and> \<not> overlayFailHidden (endExecutionCheck w')
          \<and> statusText (endExecutionCheck w') = StatusNotAtGoal)"
proof -
  have "runTimer steps 0 w = Inr (length steps, endExecutionCheck w')"
    using runTimer_consumeAll [of 0 steps w w'] assms by simp
  then show ?thesis
    by (simp add: endExecutionCheck_def atGoal_def showSuccessOverlay_def showFailOverlay_def
          updateStatus_def setQueueHighlight_def Let_def)
qed

theorem queue_exhausted_outcome_witness:
  "consumeAll [\<lparr>fromIndex = 0, action = ''R''\<rparr>] demoWorld
     = Some (agentAt 0 0 2 (setQueueHighlight (Some 0) demoWorld))
   \<and> runTimer [\<lparr>fromIndex = 0, action = ''R''\<rparr>] 0 demoWorld
     = Inr (1, endExecutionCheck (agentAt 0 0 2 (setQueueHighlight (Some 0) demoWorld)))
   \<and> \<not> atGoal (agentAt 0 0 2 (setQueueHighlight (Some 0) demoWorld))
   \<and> \<not> overlayFailHidden (endExecutionCheck (agentAt 0 0 2 (setQueueHighlight (Some 0) demoWorld)))
   \<and> statusText (endExecutionCheck (agentAt 0 0 2 (setQueueHighlight (Some 0) demoWorld))) = StatusNotAtGoal"
proof -
  let ?w' = "agentAt 0 0 2 (setQueueHighlight (Some 0) demoWorld)"
  have h: "consumeAll [\<lparr>fromIndex = 0, action = ''R''\<rparr>] demoWorld = Some ?w'"
    by (simp add: performStep_def Let_def agentAt_def setQueueHighlight_def demoWorld_def)
  have n: "\<not> atGoal ?w'"
    by (simp add: atGoal_def agentAt_def setQueueHighlight_def demoWorld_def)
  from queue_exhausted_outcome [OF h] h n show ?thesis by simp
qed

section \<open>What a step leaves alone\<close>

text \<open>
  C10. A step that returns leaves the grid (and the start and goal positions) as
  they were; a step whose action is not \<^verbatim>\<open>F\<close> (a turn, a conditional, a no-op or any
  other token) leaves the position of the agent as it was; a \<^verbatim>\<open>F\<close> step leaves the
  heading as it was.
\<close>

theorem performStep_frame:
  assumes "performStep stp w = Inr (continueRun, w')"
  shows "grid w' = grid w \<and> startPos w' = startPos w \<and> goalPos w' = goalPos w
     \<and> (action stp \<noteq> ''F'' \<longrightarrow>
          agent_x (agentState w') = agent_x (agentState w)
          \<and> agent_y (agentState w') = agent_y (agentState w))
     \<and> (action stp = ''F'' \<longrightarrow> agent_dir (agentState w') = agent_dir (agentState w))"
  using assms
  by (auto simp: performStep_def Let_def showFailOverlay_def showSuccessOverlay_def updateStatus_def
        split: if_splits sum.splits)

theorem performStep_frame_witness:
  "performStep \<lparr>fromIndex = 0, action = ''F''\<rparr> demoWorld = Inr (True, agentAt 1 0 1 demoWorld)
   \<and> grid (agentAt 1 0 1 demoWorld) = grid demoWorld
   \<and> agent_dir (agentState (agentAt 1 0 1 demoWorld)) = agent_dir (agentState demoWorld)
   \<and> performStep \<lparr>fromIndex = 0, action = ''LOOP2''\<rparr> demoWorld = Inr (True, demoWorld)"
proof -
  have h: "performStep \<lparr>fromIndex = 0, action = ''F''\<rparr> demoWorld = Inr (True, agentAt 1 0 1 demoWorld)"
    by (simp add: performStep_def Let_def agentAt_def demoWorld_def demoGrid_def DIRS_def
          GRID_SIZE_def cellAt_def)
  have u: "performStep \<lparr>fromIndex = 0, action = ''LOOP2''\<rparr> demoWorld = Inr (True, demoWorld)"
    by (simp add: performStep_def)
  from performStep_frame [OF h] h u show ?thesis by simp
qed

section \<open>The generator\<close>

subsection \<open>Draws\<close>

lemma randInt_range:
  assumes "0 \<le> u" and "u < 1" and "lo \<le> hi"
  shows "lo \<le> randInt lo hi u \<and> randInt lo hi u \<le> hi"
proof -
  define n where "n = hi - lo + 1"
  have n: "0 < (of_int n :: rat)" using assms(3) by (simp add: n_def)
  have "0 \<le> u * of_int n" using assms(1) n by simp
  then have lo: "0 \<le> \<lfloor>u * of_int n\<rfloor>" by simp
  have "u * of_int n < of_int n" using assms(2) n by simp
  then have "\<lfloor>u * of_int n\<rfloor> < n" by (simp add: floor_less_iff)
  with lo show ?thesis unfolding randInt_def n_def [symmetric] by (simp add: n_def)
qed

lemma randInt_inGrid:
  assumes "unitDraws rnd"
  shows "inGrid (randInt 0 (GRID_SIZE - 1) (rnd k), randInt 0 (GRID_SIZE - 1) (rnd k'))"
  using randInt_range [of "rnd k" 0 4] randInt_range [of "rnd k'" 0 4] assms
  by (simp add: inGrid_def GRID_SIZE_def unitDraws_def)

subsection \<open>The goal\<close>

lemma pickGoal_zero:
  "attempts \<le> 50 \<Longrightarrow> pickGoal (\<lambda>k. 0) (0, 0) attempts k = ((0, 0), 51, k + 2 * (51 - attempts))"
proof (induction "50 - attempts" arbitrary: attempts k)
  case 0
  then have "attempts = 50" by simp
  then show ?case by (subst pickGoal.simps) (simp add: randInt_def Let_def)
next
  case (Suc n)
  then have a: "attempts < 50" and n: "n = 50 - (attempts + 1)" and le: "attempts + 1 \<le> 50" by simp_all
  from Suc.hyps(1) [OF n le]
  have "pickGoal (\<lambda>k. 0) (0, 0) (attempts + 1) (k + 2) = ((0, 0), 51, k + 2 + 2 * (51 - (attempts + 1)))" .
  with a show ?case by (subst pickGoal.simps) (simp add: randInt_def Let_def)
qed

lemma pickGoal_props:
  assumes "unitDraws rnd"
  shows "case pickGoal rnd start attempts k of (goal, n, k') \<Rightarrow>
           inGrid goal \<and> attempts < n \<and> (n \<le> 50 \<longrightarrow> goal \<noteq> start \<and> 6 \<le> manhattan start goal)"
  using assms
proof (induction rnd start attempts k rule: pickGoal.induct)
  case (1 rnd start attempts k)
  let ?gx = "randInt 0 (GRID_SIZE - 1) (rnd k)"
  let ?gy = "randInt 0 (GRID_SIZE - 1) (rnd (k + 1))"
  have ing: "inGrid (?gx, ?gy)"
    using "1.prems" by (rule randInt_inGrid)
  show ?case
  proof (cases "attempts + 1 > 50")
    case True
    then show ?thesis using ing by (subst pickGoal.simps) (simp add: Let_def)
  next
    case False
    show ?thesis
    proof (cases "(?gx = fst start \<and> ?gy = snd start) \<or> \<bar>?gx - fst start\<bar> + \<bar>?gy - snd start\<bar> < 6")
      case True
      from "1.IH" [OF refl refl refl False True "1.prems"]
      have "case pickGoal rnd start (attempts + 1) (k + 2) of (goal, n, k') \<Rightarrow>
           inGrid goal \<and> attempts + 1 < n \<and> (n \<le> 50 \<longrightarrow> goal \<noteq> start \<and> 6 \<le> manhattan start goal)" .
      then show ?thesis using False True
        by (subst pickGoal.simps) (auto simp: Let_def split: prod.splits)
    next
      case c: False
      then show ?thesis using False ing
        by (subst pickGoal.simps) (auto simp: Let_def manhattan_def prod_eq_iff)
    qed
  qed
qed

lemma pickGoal_within_bound:
  assumes "unitDraws rnd" and "pickGoal rnd start 0 k = (goal, n, k1)" and "n \<le> 50"
  shows "goal \<noteq> start \<and> 6 \<le> manhattan start goal"
  using pickGoal_props [OF assms(1), where start = start and attempts = 0 and k = k] assms(2,3)
  by simp

text \<open>
  C9, at the failing draws. When all the draws are 0, each of the 51 attempts draws the
  cell \<open>(0, 0)\<close>; the 51st leaves the loop through its \<^verbatim>\<open>break\<close>, before the loop
  condition that rejects the start is looked at, and the generator returns a world whose
  goal position is the start position, with the start cell of kind goal.
  (Within the bound the goal differs from the start and lies at distance 6 or more:
  lemma \<open>pickGoal_within_bound\<close>.)
\<close>

theorem pickGoal_accepts_start:
  "unitDraws (\<lambda>k. 0)
   \<and> pickGoal (\<lambda>k. 0) (0, 0) 0 0 = ((0, 0), 51, 102)
   \<and> (case generateRandomMap (\<lambda>k. 0) 0 demoWorld of
         Some (Inr (w1, k1)) \<Rightarrow>
           goalPos w1 = startPos w1 \<and> cellAt (grid w1) 0 0 = Inr (Some Goal)
       | _ \<Rightarrow> False)"
proof -
  have a: "unitDraws (\<lambda>k. 0)"
    by (simp add: unitDraws_def)
  have b: "pickGoal (\<lambda>k. 0) (0, 0) 0 0 = ((0, 0), 51, 102)"
    using pickGoal_zero [of 0 0] by simp
  have c: "(case generateRandomMap (\<lambda>k. 0) 0 demoWorld of
         Some (Inr (w1, k1)) \<Rightarrow>
           goalPos w1 = startPos w1 \<and> cellAt (grid w1) 0 0 = Inr (Some Goal)
       | _ \<Rightarrow> False)"
    by code_simp
  from a b c show ?thesis by blast
qed

subsection \<open>The solution path\<close>

lemma fillVertical_up:
  "y \<le> toY \<Longrightarrow> \<exists>cells. fillVertical fx y 1 toY acc = Some (acc @ cells)
       \<and> (\<forall>p\<in>set cells. fst p = fx \<and> y \<le> snd p \<and> snd p < toY)"
proof (induction "nat (toY - y)" arbitrary: y acc)
  case 0
  then have "y = toY" by simp
  then show ?case by (subst fillVertical.simps) simp
next
  case (Suc n)
  then have lt: "y < toY" and n: "n = nat (toY - (y + 1))" and le: "y + 1 \<le> toY" by simp_all
  from Suc.hyps(1) [OF n le, of "acc @ [(fx, y)]"] obtain cells where
    c: "fillVertical fx (y + 1) 1 toY (acc @ [(fx, y)]) = Some ((acc @ [(fx, y)]) @ cells)"
    and b: "\<forall>p\<in>set cells. fst p = fx \<and> y + 1 \<le> snd p \<and> snd p < toY"
    by blast
  have "fillVertical fx y 1 toY acc = Some (acc @ ((fx, y) # cells))"
    using lt c by (subst fillVertical.simps) simp
  moreover have "\<forall>p\<in>set ((fx, y) # cells). fst p = fx \<and> y \<le> snd p \<and> snd p < toY"
    using b lt by auto
  ultimately show ?case by blast
qed

lemma fillVertical_down:
  "toY \<le> y \<Longrightarrow> \<exists>cells. fillVertical fx y (- 1) toY acc = Some (acc @ cells)
       \<and> (\<forall>p\<in>set cells. fst p = fx \<and> toY < snd p \<and> snd p \<le> y)"
proof (induction "nat (y - toY)" arbitrary: y acc)
  case 0
  then have "y = toY" by simp
  then show ?case by (subst fillVertical.simps) simp
next
  case (Suc n)
  then have lt: "toY < y" and n: "n = nat (y + - 1 - toY)" and le: "toY \<le> y + - 1" by simp_all
  from Suc.hyps(1) [OF n le, of "acc @ [(fx, y)]"] obtain cells where
    c: "fillVertical fx (y + - 1) (- 1) toY (acc @ [(fx, y)]) = Some ((acc @ [(fx, y)]) @ cells)"
    and b: "\<forall>p\<in>set cells. fst p = fx \<and> toY < snd p \<and> snd p \<le> y + - 1"
    by blast
  have "fillVertical fx y (- 1) toY acc = Some (acc @ ((fx, y) # cells))"
    using lt c by (subst fillVertical.simps) simp
  moreover have "\<forall>p\<in>set ((fx, y) # cells). fst p = fx \<and> toY < snd p \<and> snd p \<le> y"
    using b lt by auto
  ultimately show ?case by blast
qed

lemma fillHorizontal_up:
  "x \<le> toX \<Longrightarrow> \<exists>cells. fillHorizontal fy x 1 toX acc = Some (acc @ cells)
       \<and> (\<forall>p\<in>set cells. snd p = fy \<and> x \<le> fst p \<and> fst p < toX)"
proof (induction "nat (toX - x)" arbitrary: x acc)
  case 0
  then have "x = toX" by simp
  then show ?case by (subst fillHorizontal.simps) simp
next
  case (Suc n)
  then have lt: "x < toX" and n: "n = nat (toX - (x + 1))" and le: "x + 1 \<le> toX" by simp_all
  from Suc.hyps(1) [OF n le, of "acc @ [(x, fy)]"] obtain cells where
    c: "fillHorizontal fy (x + 1) 1 toX (acc @ [(x, fy)]) = Some ((acc @ [(x, fy)]) @ cells)"
    and b: "\<forall>p\<in>set cells. snd p = fy \<and> x + 1 \<le> fst p \<and> fst p < toX"
    by blast
  have "fillHorizontal fy x 1 toX acc = Some (acc @ ((x, fy) # cells))"
    using lt c by (subst fillHorizontal.simps) simp
  moreover have "\<forall>p\<in>set ((x, fy) # cells). snd p = fy \<and> x \<le> fst p \<and> fst p < toX"
    using b lt by auto
  ultimately show ?case by blast
qed

lemma fillHorizontal_down:
  "toX \<le> x \<Longrightarrow> \<exists>cells. fillHorizontal fy x (- 1) toX acc = Some (acc @ cells)
       \<and> (\<forall>p\<in>set cells. snd p = fy \<and> toX < fst p \<and> fst p \<le> x)"
proof (induction "nat (x - toX)" arbitrary: x acc)
  case 0
  then have "x = toX" by simp
  then show ?case by (subst fillHorizontal.simps) simp
next
  case (Suc n)
  then have lt: "toX < x" and n: "n = nat (x + - 1 - toX)" and le: "toX \<le> x + - 1" by simp_all
  from Suc.hyps(1) [OF n le, of "acc @ [(x, fy)]"] obtain cells where
    c: "fillHorizontal fy (x + - 1) (- 1) toX (acc @ [(x, fy)]) = Some ((acc @ [(x, fy)]) @ cells)"
    and b: "\<forall>p\<in>set cells. snd p = fy \<and> toX < fst p \<and> fst p \<le> x + - 1"
    by blast
  have "fillHorizontal fy x (- 1) toX acc = Some (acc @ ((x, fy) # cells))"
    using lt c by (subst fillHorizontal.simps) simp
  moreover have "\<forall>p\<in>set ((x, fy) # cells). snd p = fy \<and> toX < fst p \<and> fst p \<le> x"
    using b lt by auto
  ultimately show ?case by blast
qed

lemma segment_inGrid:
  assumes "fst from = fst to \<longrightarrow> snd from \<noteq> snd to" and "inGrid from" and "inGrid to"
  shows "\<exists>cells.
           (if fst from = fst to
            then fillVertical (fst from)
                   (snd from + (if snd from < snd to then 1 else - 1))
                   (if snd from < snd to then 1 else - 1) (snd to) acc
            else if snd from = snd to
            then fillHorizontal (snd from)
                   (fst from + (if fst from < fst to then 1 else - 1))
                   (if fst from < fst to then 1 else - 1) (fst to) acc
            else Some acc) = Some (acc @ cells)
         \<and> (\<forall>p\<in>set cells. inGrid p)"
proof -
  consider (vu) "fst from = fst to" "snd from < snd to"
    | (vd) "fst from = fst to" "snd to < snd from"
    | (hu) "fst from \<noteq> fst to" "snd from = snd to" "fst from < fst to"
    | (hd) "fst from \<noteq> fst to" "snd from = snd to" "fst to < fst from"
    | (diag) "fst from \<noteq> fst to" "snd from \<noteq> snd to"
    using assms(1) by linarith
  then show ?thesis
  proof cases
    case vu
    from fillVertical_up [of "snd from + 1" "snd to" "fst from" acc] vu obtain cells where
      "fillVertical (fst from) (snd from + 1) 1 (snd to) acc = Some (acc @ cells)"
      "\<forall>p\<in>set cells. fst p = fst from \<and> snd from + 1 \<le> snd p \<and> snd p < snd to"
      by auto
    with vu assms(2,3) show ?thesis by (auto simp: inGrid_def)
  next
    case vd
    from fillVertical_down [of "snd to" "snd from + - 1" "fst from" acc] vd obtain cells where
      "fillVertical (fst from) (snd from + - 1) (- 1) (snd to) acc = Some (acc @ cells)"
      "\<forall>p\<in>set cells. fst p = fst from \<and> snd to < snd p \<and> snd p \<le> snd from + - 1"
      by auto
    with vd assms(2,3) show ?thesis by (auto simp: inGrid_def)
  next
    case hu
    from fillHorizontal_up [of "fst from + 1" "fst to" "snd from" acc] hu obtain cells where
      "fillHorizontal (snd from) (fst from + 1) 1 (fst to) acc = Some (acc @ cells)"
      "\<forall>p\<in>set cells. snd p = snd from \<and> fst from + 1 \<le> fst p \<and> fst p < fst to"
      by auto
    with hu assms(2,3) show ?thesis by (auto simp: inGrid_def)
  next
    case hd
    from fillHorizontal_down [of "fst to" "fst from + - 1" "snd from" acc] hd obtain cells where
      "fillHorizontal (snd from) (fst from + - 1) (- 1) (fst to) acc = Some (acc @ cells)"
      "\<forall>p\<in>set cells. snd p = snd from \<and> fst to < fst p \<and> fst p \<le> fst from + - 1"
      by auto
    with hd assms(2,3) show ?thesis by (auto simp: inGrid_def)
  next
    case diag
    then show ?thesis by simp
  qed
qed

lemma expandPath_inGrid:
  "alignedDistinct path \<Longrightarrow> \<forall>p\<in>set path. inGrid p \<Longrightarrow>
     \<exists>cells. expandPath path acc = Some (acc @ cells) \<and> (\<forall>p\<in>set cells. inGrid p)"
proof (induction path acc rule: expandPath.induct)
  case (1 "from" to rest expandedPath)
  from "1.prems" have al: "fst from = fst to \<longrightarrow> snd from \<noteq> snd to"
    and al': "alignedDistinct (to # rest)"
    and inf: "inGrid from" and int: "inGrid to" and inr: "\<forall>p\<in>set (to # rest). inGrid p"
    by simp_all
  from segment_inGrid [OF al inf int, of "expandedPath @ [from]"] obtain c1 where
    seg: "(if fst from = fst to
            then fillVertical (fst from)
                   (snd from + (if snd from < snd to then 1 else - 1))
                   (if snd from < snd to then 1 else - 1) (snd to) (expandedPath @ [from])
            else if snd from = snd to
            then fillHorizontal (snd from)
                   (fst from + (if fst from < fst to then 1 else - 1))
                   (if fst from < fst to then 1 else - 1) (fst to) (expandedPath @ [from])
            else Some (expandedPath @ [from])) = Some ((expandedPath @ [from]) @ c1)"
    and c1: "\<forall>p\<in>set c1. inGrid p"
    by blast
  from "1.IH" [OF refl seg al' inr] obtain c2 where
    rec: "expandPath (to # rest) ((expandedPath @ [from]) @ c1) = Some (((expandedPath @ [from]) @ c1) @ c2)"
    and c2: "\<forall>p\<in>set c2. inGrid p"
    by blast
  have "expandPath (from # to # rest) expandedPath = Some (expandedPath @ (from # c1 @ c2))"
    using seg rec by (simp add: Let_def)
  moreover have "\<forall>p\<in>set (from # c1 @ c2). inGrid p"
    using inf c1 c2 by auto
  ultimately show ?case by blast
qed simp_all

lemma pathPoints_ok:
  assumes "inGrid start" and "inGrid goal"
  shows "alignedDistinct (pathPoints start goal b) \<and> (\<forall>p\<in>set (pathPoints start goal b). inGrid p)"
  using assms by (auto simp: pathPoints_def Let_def inGrid_def)

lemma generateSolutionPath_inGrid:
  assumes "inGrid start" and "inGrid goal"
  shows "\<exists>path. generateSolutionPath start goal u = Some path
           \<and> (\<forall>p\<in>set path. inGrid p) \<and> goal \<in> set path"
proof -
  from pathPoints_ok [OF assms, of "u > 1 / 2"]
  have "alignedDistinct (pathPoints start goal (u > 1 / 2))"
    and "\<forall>p\<in>set (pathPoints start goal (u > 1 / 2)). inGrid p"
    by simp_all
  from expandPath_inGrid [OF this, of "[]"] obtain cells where
    "expandPath (pathPoints start goal (u > 1 / 2)) [] = Some cells" "\<forall>p\<in>set cells. inGrid p"
    by auto
  with assms(2) show ?thesis by (simp add: generateSolutionPath_def)
qed

lemma findCorners_subset: "set (findCorners path) \<subseteq> set path"
proof (induction path rule: findCorners.induct)
  case (1 prev corner nxt rest)
  from "1.IH" [OF refl refl refl refl]
  have "set (findCorners (corner # nxt # rest)) \<subseteq> set (corner # nxt # rest)" .
  then show ?case by (auto simp: Let_def)
qed simp_all

subsection \<open>The shuffle\<close>

lemma swapEntries_inside:
  assumes "i < length xs" and "0 \<le> j" and "nat j < length xs"
  shows "length (swapEntries xs i j) = length xs \<and> set (swapEntries xs i j) \<subseteq> set xs"
proof -
  have a: "set (xs[i := xs ! nat j]) \<subseteq> set xs"
    using assms by (meson nth_mem set_update_subsetI subset_refl)
  then have "set (xs[i := xs ! nat j, nat j := xs ! i]) \<subseteq> set xs"
    using assms(1) by (meson nth_mem set_update_subsetI)
  with assms show ?thesis by (simp add: swapEntries_def Let_def)
qed

lemma shuffleLoop_subset:
  assumes "unitDraws rnd"
  shows "i < length xs \<or> i = 0 \<Longrightarrow> set (fst (shuffleLoop rnd i xs k)) \<subseteq> set xs"
proof (induction i arbitrary: xs k)
  case 0
  then show ?case by simp
next
  case (Suc i)
  then have il: "Suc i < length xs" by simp
  let ?j = "\<lfloor>rnd k * of_nat (Suc i + 1)\<rfloor>"
  from assms have u: "0 \<le> rnd k" "rnd k < 1" by (simp_all add: unitDraws_def)
  have "0 \<le> rnd k * of_nat (Suc i + 1)" using u(1) by simp
  then have j0: "0 \<le> ?j" by simp
  have "rnd k * of_nat (Suc i + 1) < of_nat (Suc i + 1)" using u(2) by simp
  then have "?j < int (Suc i + 1)" by (simp add: floor_less_iff)
  with il j0 have jl: "nat ?j < length xs" by linarith
  from swapEntries_inside [OF il j0 jl]
  have len: "length (swapEntries xs (Suc i) ?j) = length xs"
    and sub: "set (swapEntries xs (Suc i) ?j) \<subseteq> set xs" by simp_all
  from il len have "i < length (swapEntries xs (Suc i) ?j) \<or> i = 0" by simp
  from Suc.IH [OF this, of "k + 1"] sub show ?case by simp
qed

lemma shuffleArray_subset:
  "unitDraws rnd \<Longrightarrow> set (fst (shuffleArray rnd xs k)) \<subseteq> set xs"
  using shuffleLoop_subset [of rnd "length xs - 1" xs k]
  by (cases xs) (simp_all add: shuffleArray_def)

lemma slice0_subset: "set (slice0 xs n) \<subseteq> set xs"
  by (simp add: slice0_def set_take_subset)

subsection \<open>Writing cells\<close>

lemma cellAt_setCell:
  "g y \<noteq> None \<Longrightarrow> \<exists>g1. setCell g y x c = Inr g1
      \<and> (\<forall>y'. (g1 y' \<noteq> None) = (g y' \<noteq> None))
      \<and> (\<forall>y' x'. cellAt g1 y' x' = (if y' = y \<and> x' = x then Inr (Some c) else cellAt g y' x'))"
  by (auto simp: setCell_def cellAt_def)

lemma gridInv_init:
  assumes "inGrid goal"
  shows "\<exists>g1. setCell emptyGrid (snd goal) (fst goal) Goal = Inr g1
          \<and> (\<forall>y. 0 \<le> y \<and> y < GRID_SIZE \<longrightarrow> g1 y \<noteq> None)
          \<and> (\<forall>x y. cellAt g1 y x = Inr (Some Goal) \<longleftrightarrow> (x, y) = goal)
          \<and> (\<forall>x y. cellAt g1 y x \<noteq> Inr (Some Wall) \<and> cellAt g1 y x \<noteq> Inr (Some Blue))"
proof -
  have e: "emptyGrid (snd goal) \<noteq> None"
    using assms by (simp add: emptyGrid_def inGrid_def)
  from cellAt_setCell [where g = emptyGrid and y = "snd goal" and x = "fst goal" and c = Goal, OF e] obtain g1 where
    s: "setCell emptyGrid (snd goal) (fst goal) Goal = Inr g1"
    and r: "\<forall>y'. (g1 y' \<noteq> None) = (emptyGrid y' \<noteq> None)"
    and c: "\<forall>y' x'. cellAt g1 y' x' =
              (if y' = snd goal \<and> x' = fst goal then Inr (Some Goal) else cellAt emptyGrid y' x')"
    by blast
  have ne: "cellAt emptyGrid y x \<noteq> Inr (Some Goal) \<and> cellAt emptyGrid y x \<noteq> Inr (Some Wall)
            \<and> cellAt emptyGrid y x \<noteq> Inr (Some Blue)" for x y
    by (simp add: cellAt_def emptyGrid_def)
  have "\<forall>y. 0 \<le> y \<and> y < GRID_SIZE \<longrightarrow> g1 y \<noteq> None"
    using r by (simp add: emptyGrid_def)
  moreover have "\<forall>x y. cellAt g1 y x = Inr (Some Goal) \<longleftrightarrow> (x, y) = goal"
    using c ne by (auto simp: prod_eq_iff)
  moreover have "\<forall>x y. cellAt g1 y x \<noteq> Inr (Some Wall) \<and> cellAt g1 y x \<noteq> Inr (Some Blue)"
    using c ne by simp
  ultimately show ?thesis using s by blast
qed

lemma gridInv_setCell:
  assumes "gridInv start goal path g" and "0 \<le> y" and "y < GRID_SIZE"
    and "(x, y) \<noteq> start" and "(x, y) \<noteq> goal" and "c = Blue \<or> c = Wall \<and> (x, y) \<notin> set path"
  shows "\<exists>g1. setCell g y x c = Inr g1 \<and> gridInv start goal path g1"
proof -
  from assms(1-3) have e: "g y \<noteq> None" by (simp add: gridInv_def)
  from cellAt_setCell [where g = g and y = y and x = x and c = c, OF e] obtain g1 where
    s: "setCell g y x c = Inr g1"
    and r: "\<forall>y'. (g1 y' \<noteq> None) = (g y' \<noteq> None)"
    and c: "\<forall>y' x'. cellAt g1 y' x' = (if y' = y \<and> x' = x then Inr (Some c) else cellAt g y' x')"
    by blast
  have "gridInv start goal path g1"
    unfolding gridInv_def
  proof (intro conjI allI ballI impI)
    fix y' assume "0 \<le> y' \<and> y' < GRID_SIZE"
    with assms(1) r show "g1 y' \<noteq> None" by (simp add: gridInv_def)
  next
    fix x' y'
    from assms(1) have "cellAt g y' x' = Inr (Some Goal) \<longleftrightarrow> (x', y') = goal"
      by (simp add: gridInv_def)
    with c assms(5,6) show "cellAt g1 y' x' = Inr (Some Goal) \<longleftrightarrow> (x', y') = goal"
      by auto
  next
    from assms(1) have "cellAt g (snd start) (fst start) \<noteq> Inr (Some Wall)"
      by (simp add: gridInv_def)
    with c assms(4) show "cellAt g1 (snd start) (fst start) \<noteq> Inr (Some Wall)"
      by (auto simp: prod_eq_iff)
  next
    from assms(1) have "cellAt g (snd start) (fst start) \<noteq> Inr (Some Blue)"
      by (simp add: gridInv_def)
    with c assms(4) show "cellAt g1 (snd start) (fst start) \<noteq> Inr (Some Blue)"
      by (auto simp: prod_eq_iff)
  next
    fix p assume p: "p \<in> set path"
    with assms(1) have "cellAt g (snd p) (fst p) \<noteq> Inr (Some Wall)"
      by (simp add: gridInv_def)
    with c assms(6) p show "cellAt g1 (snd p) (fst p) \<noteq> Inr (Some Wall)"
      by (cases p) auto
  qed
  with s show ?thesis by blast
qed

lemma placeBlue_inv:
  assumes "\<forall>c\<in>set cs. \<exists>p. c = Some p \<and> inGrid p"
    and "gridInv start goal path g"
  shows "\<exists>g1. placeBlue cs start goal g = Inr g1 \<and> gridInv start goal path g1"
  using assms
proof (induction cs arbitrary: g)
  case Nil
  then show ?case by simp
next
  case (Cons c cs)
  from Cons.prems(1) obtain x y where c: "c = Some (x, y)" and ing: "inGrid (x, y)"
    by auto
  from Cons.prems(1) have rest: "\<forall>c\<in>set cs. \<exists>p. c = Some p \<and> inGrid p" by simp
  show ?case
  proof (cases "\<not> (x = fst start \<and> y = snd start) \<and> \<not> (x = fst goal \<and> y = snd goal)")
    case True
    then have "(x, y) \<noteq> start" "(x, y) \<noteq> goal" by auto
    from gridInv_setCell [OF Cons.prems(2) _ _ this, of Blue] ing obtain g1 where
      s: "setCell g y x Blue = Inr g1" and i: "gridInv start goal path g1"
      by (auto simp: inGrid_def)
    from Cons.IH [OF rest i] s c True show ?thesis by simp
  next
    case False
    with Cons.IH [OF rest Cons.prems(2)] c show ?thesis by auto
  qed
qed

lemma placeWalls_inv:
  shows "unitDraws rnd \<Longrightarrow> gridInv start goal path g \<Longrightarrow>
     \<exists>g1 k1. placeWalls rnd path start goal wallCount placedWalls wallAttempts g k = Inr (g1, k1)
        \<and> gridInv start goal path g1"
proof (induction rnd path start goal wallCount placedWalls wallAttempts g k rule: placeWalls.induct)
  case (1 rnd pathCells start goal wallCount placedWalls wallAttempts g k)
  let ?x = "randInt 0 (GRID_SIZE - 1) (rnd k)"
  let ?y = "randInt 0 (GRID_SIZE - 1) (rnd (k + 1))"
  show ?case
  proof (cases "placedWalls < wallCount \<and> wallAttempts < 100")
    case False
    with "1.prems"(2) show ?thesis by (subst placeWalls.simps) auto
  next
    case loop: True
    have ing: "inGrid (?x, ?y)"
      using "1.prems"(1) by (rule randInt_inGrid)
    show ?thesis
    proof (cases "(?x, ?y) \<notin> set pathCells \<and> \<not> (?x = fst start \<and> ?y = snd start)
                    \<and> \<not> (?x = fst goal \<and> ?y = snd goal)")
      case False
      from "1.IH"(3) [OF loop refl refl False "1.prems"] loop False show ?thesis
        by (subst placeWalls.simps) (auto simp: Let_def)
    next
      case free: True
      from "1.prems"(2) ing have "g ?y \<noteq> None"
        by (simp add: gridInv_def inGrid_def)
      then obtain c where cell: "cellAt g ?y ?x = Inr c"
        by (auto simp: cellAt_def)
      show ?thesis
      proof (cases "c = Some Empty")
        case False
        from "1.IH"(2) [OF loop refl refl free cell False "1.prems"] loop free cell False
        show ?thesis
          by (subst placeWalls.simps) (auto simp: Let_def)
      next
        case True
        from free have ne: "(?x, ?y) \<noteq> start" "(?x, ?y) \<noteq> goal" by auto
        from free have np: "Wall = Blue \<or> Wall = Wall \<and> (?x, ?y) \<notin> set pathCells" by simp
        from ing have y: "0 \<le> ?y" "?y < GRID_SIZE" by (simp_all add: inGrid_def)
        from gridInv_setCell [OF "1.prems"(2) y ne np] obtain g1 where
          s: "setCell g ?y ?x Wall = Inr g1" and i: "gridInv start goal pathCells g1"
          by blast
        from "1.IH"(1) [OF loop refl refl free cell True s "1.prems"(1) i] loop free cell True s
        show ?thesis
          by (subst placeWalls.simps) (auto simp: Let_def)
      qed
    qed
  qed
qed

subsection \<open>The generated grid\<close>

text \<open>
  C8. Whatever the draws (each in \<open>[0, 1)\<close>), the generator returns: it neither
  throws nor runs forever. In the grid it returns, the cell at the goal position is of
  kind goal and no other cell is (exactly one goal cell); the start cell \<open>(0, 0)\<close> is
  neither wall nor blue; and no cell of the solution path, which ends in the goal, is a
  wall.
\<close>

theorem generateRandomMap_grid:
  assumes "unitDraws rnd"
  shows "\<exists>w1 path k1.
           generateRandomMapPath rnd k w = Some (Inr (w1, path, k1))
         \<and> generateRandomMap rnd k w = Some (Inr (w1, k1))
         \<and> startPos w1 = (0, 0) \<and> inGrid (goalPos w1)
         \<and> cellAt (grid w1) (snd (goalPos w1)) (fst (goalPos w1)) = Inr (Some Goal)
         \<and> (\<forall>x y. cellAt (grid w1) y x = Inr (Some Goal) \<longrightarrow> (x, y) = goalPos w1)
         \<and> cellAt (grid w1) (snd (startPos w1)) (fst (startPos w1)) \<noteq> Inr (Some Wall)
         \<and> cellAt (grid w1) (snd (startPos w1)) (fst (startPos w1)) \<noteq> Inr (Some Blue)
         \<and> (\<forall>p\<in>set path. cellAt (grid w1) (snd p) (fst p) \<noteq> Inr (Some Wall))
         \<and> goalPos w1 \<in> set path"
proof -
  obtain goal attempts k1 where pg: "pickGoal rnd (0, 0) 0 k = (goal, attempts, k1)"
    by (cases "pickGoal rnd (0, 0) 0 k") auto
  from pickGoal_props [OF assms, where start = "(0, 0)" and attempts = 0 and k = k] pg have ing: "inGrid goal" by simp
  have ins: "inGrid (0, 0)" by (simp add: inGrid_def GRID_SIZE_def)
  from gridInv_init [OF ing] obtain g1 where
    s1: "setCell emptyGrid (snd goal) (fst goal) Goal = Inr g1"
    and rows: "\<forall>y. 0 \<le> y \<and> y < GRID_SIZE \<longrightarrow> g1 y \<noteq> None"
    and gl: "\<forall>x y. cellAt g1 y x = Inr (Some Goal) \<longleftrightarrow> (x, y) = goal"
    and fresh: "\<forall>x y. cellAt g1 y x \<noteq> Inr (Some Wall) \<and> cellAt g1 y x \<noteq> Inr (Some Blue)"
    by blast
  from generateSolutionPath_inGrid [OF ins ing, of "rnd k1"] obtain path where
    sp: "generateSolutionPath (0, 0) goal (rnd k1) = Some path"
    and pin: "\<forall>p\<in>set path. inGrid p" and gp: "goal \<in> set path"
    by blast
  have i1: "gridInv (0, 0) goal path g1"
    using rows gl fresh by (simp add: gridInv_def)
  obtain shuffled k2 where
    sh: "shuffleArray rnd (map Some (findCorners path)) (k1 + 2) = (shuffled, k2)"
    by (cases "shuffleArray rnd (map Some (findCorners path)) (k1 + 2)") auto
  let ?sel = "slice0 shuffled (min (randInt 1 2 (rnd (k1 + 1))) (int (length (findCorners path))))"
  from shuffleArray_subset [OF assms, of "map Some (findCorners path)" "k1 + 2"] sh
  have "set shuffled \<subseteq> Some ` set (findCorners path)" by simp
  with slice0_subset [of shuffled] findCorners_subset [of path]
  have "set ?sel \<subseteq> Some ` set path" by blast
  with pin have sel: "\<forall>c\<in>set ?sel. \<exists>p. c = Some p \<and> inGrid p" by auto
  from placeBlue_inv [OF sel i1] obtain g2 where
    pb: "placeBlue ?sel (0, 0) goal g1 = Inr g2" and i2: "gridInv (0, 0) goal path g2"
    by blast
  from placeWalls_inv [OF assms i2, of "randInt 3 5 (rnd k2)" 0 0 "k2 + 1"] obtain g3 k3 where
    pw: "placeWalls rnd path (0, 0) goal (randInt 3 5 (rnd k2)) 0 0 g2 (k2 + 1) = Inr (g3, k3)"
    and i3: "gridInv (0, 0) goal path g3"
    by blast
  let ?w1 = "w\<lparr>grid := g3, startPos := (0, 0), goalPos := goal,
                agentState := (agentState w)\<lparr>agent_x := fst (0::int, 0::int), agent_y := snd (0::int, 0::int)\<rparr>\<rparr>"
  have r: "generateRandomMapPath rnd k w = Some (Inr (?w1, path, k3))"
    using pg s1 sp sh pb pw by (simp add: generateRandomMapPath_def Let_def)
  then have r': "generateRandomMap rnd k w = Some (Inr (?w1, k3))"
    by (simp add: generateRandomMap_def)
  from i3 have
    a: "cellAt g3 (snd goal) (fst goal) = Inr (Some Goal)"
    and b: "\<forall>x y. cellAt g3 y x = Inr (Some Goal) \<longrightarrow> (x, y) = goal"
    and c: "cellAt g3 0 0 \<noteq> Inr (Some Wall)" "cellAt g3 0 0 \<noteq> Inr (Some Blue)"
    and d: "\<forall>p\<in>set path. cellAt g3 (snd p) (fst p) \<noteq> Inr (Some Wall)"
    by (simp_all add: gridInv_def)
  show ?thesis
    using r r' a b c d gp ing by (intro exI [of _ ?w1] exI [of _ path] exI [of _ k3]) simp
qed

theorem generateRandomMap_grid_witness:
  "unitDraws (\<lambda>k. 9 / 10)
   \<and> (\<exists>w1 path k1.
           generateRandomMapPath (\<lambda>k. 9 / 10) 0 demoWorld = Some (Inr (w1, path, k1))
         \<and> goalPos w1 = (4, 4)
         \<and> path = [(0, 0), (1, 0), (2, 0), (3, 0), (4, 0), (4, 1), (4, 2), (4, 3), (4, 4)]
         \<and> cellAt (grid w1) (snd (goalPos w1)) (fst (goalPos w1)) = Inr (Some Goal)
         \<and> (\<forall>x y. cellAt (grid w1) y x = Inr (Some Goal) \<longrightarrow> (x, y) = goalPos w1)
         \<and> cellAt (grid w1) (snd (startPos w1)) (fst (startPos w1)) \<noteq> Inr (Some Wall)
         \<and> cellAt (grid w1) (snd (startPos w1)) (fst (startPos w1)) \<noteq> Inr (Some Blue)
         \<and> (\<forall>p\<in>set path. cellAt (grid w1) (snd p) (fst p) \<noteq> Inr (Some Wall))
         \<and> goalPos w1 \<in> set path)"
proof -
  have u: "unitDraws (\<lambda>k. 9 / 10)"
    by (simp add: unitDraws_def)
  have e: "(case generateRandomMapPath (\<lambda>k. 9 / 10) 0 demoWorld of
              Some (Inr (w1, path, k1)) \<Rightarrow>
                goalPos w1 = (4, 4)
                \<and> path = [(0, 0), (1, 0), (2, 0), (3, 0), (4, 0), (4, 1), (4, 2), (4, 3), (4, 4)]
            | _ \<Rightarrow> False)"
    by code_simp
  from generateRandomMap_grid [OF u, of 0 demoWorld] obtain w1 path k1 where
    r: "generateRandomMapPath (\<lambda>k. 9 / 10) 0 demoWorld = Some (Inr (w1, path, k1))"
    and p: "cellAt (grid w1) (snd (goalPos w1)) (fst (goalPos w1)) = Inr (Some Goal)"
      "\<forall>x y. cellAt (grid w1) y x = Inr (Some Goal) \<longrightarrow> (x, y) = goalPos w1"
      "cellAt (grid w1) (snd (startPos w1)) (fst (startPos w1)) \<noteq> Inr (Some Wall)"
      "cellAt (grid w1) (snd (startPos w1)) (fst (startPos w1)) \<noteq> Inr (Some Blue)"
      "\<forall>p\<in>set path. cellAt (grid w1) (snd p) (fst p) \<noteq> Inr (Some Wall)"
      "goalPos w1 \<in> set path"
    by blast
  from e r have "goalPos w1 = (4, 4)"
    and "path = [(0, 0), (1, 0), (2, 0), (3, 0), (4, 0), (4, 1), (4, 2), (4, 3), (4, 4)]"
    by simp_all
  with u r p show ?thesis by blast
qed

end
